theory Spec2Isabelle
  imports Complex_Main "HOL-Library.Sublist" "HOL-Library.List_Lexorder" "HOL-Library.Char_ord"
    "HOL-Library.Product_Lexorder"
begin

section \<open>Insurance portfolio dashboard: data model\<close>

text \<open>
  The script \<^verbatim>\<open>insurance_portfolio_sql_dashboard.py\<close> creates two SQLite tables, fills
  them from a seeded numpy generator, and runs five SQL queries and one pandas summary.
  SQLite's INTEGER columns are modelled by \<open>nat\<close> (row ids) and \<open>int\<close> (ages), TEXT by
  \<open>string\<close>, and REAL by \<open>real\<close>: the arithmetic of the model is exact, so the rounding
  error of IEEE doubles is not part of it. A nullable column is an \<open>option\<close>, with
  \<open>None\<close> for NULL.
\<close>

record policy =
  policy_id :: nat
  customer_age :: int
  car_type :: string
  premium :: real

record claim =
  claim_id :: nat
  claim_policy_id :: nat
  claim_amount :: real
  claim_date :: "string option"

record database =
  Policies :: "policy list"
  Claims :: "claim list"

section \<open>The random generator\<close>

text \<open>
  \<^verbatim>\<open>rng = np.random.default_rng(42)\<close> is a mutable object; the model threads its state
  \<open>'g\<close> through every draw. numpy itself is not part of the repository, so the five
  distributions the script draws from, and the seeding function, are the fields of a
  record the generator takes as a parameter. A draw of \<^verbatim>\<open>size=N\<close> is \<open>N\<close> successive
  scalar draws.
\<close>

record 'g Generator =
  default_rng :: "nat \<Rightarrow> 'g"
  integers :: "int \<Rightarrow> int \<Rightarrow> 'g \<Rightarrow> int \<times> 'g"
  choice :: "string list \<Rightarrow> real list \<Rightarrow> 'g \<Rightarrow> string \<times> 'g"
  normal :: "real \<Rightarrow> real \<Rightarrow> 'g \<Rightarrow> real \<times> 'g"
  poisson :: "real \<Rightarrow> 'g \<Rightarrow> nat \<times> 'g"
  lognormal :: "real \<Rightarrow> real \<Rightarrow> 'g \<Rightarrow> real \<times> 'g"

text \<open>
  What numpy documents about the ranges of the draws: \<^verbatim>\<open>integers(low, high)\<close> lies in
  the half-open interval, \<^verbatim>\<open>choice(a)\<close> is an element of \<open>a\<close>, and a log-normal sample is
  positive. (A Poisson count is a natural number by its type.)
\<close>

definition numpy_contract :: "'g Generator \<Rightarrow> bool" where
  "numpy_contract R \<longleftrightarrow>
     (\<forall>lo hi g. lo < hi \<longrightarrow> lo \<le> fst (integers R lo hi g) \<and> fst (integers R lo hi g) < hi) \<and>
     (\<forall>a p g. a \<noteq> [] \<longrightarrow> fst (choice R a p g) \<in> set a) \<and>
     (\<forall>m s g. 0 < fst (lognormal R m s g))"

text \<open>
  How numpy draws a log-normal sample: \<open>exp (m + s * z)\<close> for a draw \<open>z\<close> of its standard
  normal sampler, a ziggurat over 53-bit uniform numbers, no draw of which is beyond 12.3
  in absolute value. This is read from numpy's implementation; its documentation gives
  the distribution only.
\<close>

definition lognormal_contract :: "'g Generator \<Rightarrow> bool" where
  "lognormal_contract R \<longleftrightarrow>
     (\<forall>m s g. \<exists>z. \<bar>z\<bar> \<le> 12.3 \<and> fst (lognormal R m s g) = exp (m + s * z))"

fun draw_array :: "('g \<Rightarrow> 'a \<times> 'g) \<Rightarrow> nat \<Rightarrow> 'g \<Rightarrow> 'a list \<times> 'g" where
  "draw_array f 0 g = ([], g)"
| "draw_array f (Suc n) g =
     (let (x, g1) = f g; (xs, g2) = draw_array f n g1 in (x # xs, g2))"

section \<open>Generating the policies\<close>


text \<open>\<^verbatim>\<open>ndarray.clip(lo, hi)\<close> is \<open>minimum(maximum(x, lo), hi)\<close>.\<close>

definition clip :: "real \<Rightarrow> real \<Rightarrow> real \<Rightarrow> real" where
  "clip lo hi x = min (max x lo) hi"

text \<open>
  Rounding to the nearest integer, ties to the even neighbour, and rounding to two
  decimals with it. Python's \<^verbatim>\<open>round(amt, 2)\<close> rounds the exact value of the double this way;
  \<^verbatim>\<open>ndarray.round(2)\<close> computes \<open>rint (x * 100) / 100\<close> in float64, where the product is
  itself rounded, so on some doubles numpy's result is a cent away from this function's.
  The bounds proved below use only that the rounding is monotone and fixes whole cents.
\<close>

definition rint :: "real \<Rightarrow> int" where
  "rint x = (let f = \<lfloor>x\<rfloor>; d = x - of_int f
             in if d < 1/2 then f else if 1/2 < d then f + 1 else if even f then f else f + 1)"

definition round2 :: "real \<Rightarrow> real" where
  "round2 x = of_int (rint (x * 100)) / 100"

text \<open>
  Lines 46-50: the three arrays, then one tuple per index in \<^verbatim>\<open>range(N_POLICIES)\<close>. The
  number of policies is a parameter here; the script runs with \<open>N_POLICIES\<close>.
\<close>

definition policy_rows :: "'g Generator \<Rightarrow> nat \<Rightarrow> 'g \<Rightarrow> (int \<times> string \<times> real) list \<times> 'g" where
  "policy_rows R n g0 =
     (let (ages, g1) = draw_array (integers R 18 80) n g0;
          (car_types, g2) =
             draw_array (choice R [''Sedan'', ''SUV'', ''Truck'', ''Sports''] [0.4, 0.3, 0.2, 0.1]) n g1;
          (draws, g3) = draw_array (normal R 1200 250) n g2;
          premiums = map (\<lambda>x. round2 (clip 400 4000 x)) draws
      in (map (\<lambda>i. (ages ! i, car_types ! i, premiums ! i)) [0..<n], g3))"

text \<open>
  \<^verbatim>\<open>executemany("INSERT INTO Policies ...")\<close> into the table the script has just created
  (the database file is removed first): AUTOINCREMENT numbers the rows 1, 2, ... in the
  order of insertion.
\<close>

definition insert_policies :: "(int \<times> string \<times> real) list \<Rightarrow> policy list" where
  "insert_policies rows =
     map (\<lambda>(i, (a, c, p)). \<lparr>policy_id = Suc i, customer_age = a, car_type = c, premium = p\<rparr>)
       (enumerate 0 rows)"

section \<open>Generating the claims\<close>

definition sigma :: real where
  "sigma = 0.9"

definition mu :: real where
  "mu = ln 7000 - 0.5 * sigma\<^sup>2"

text \<open>Lines 67-73: the expected claim frequency of one policy.\<close>

definition base_lambda :: "string \<Rightarrow> int \<Rightarrow> real" where
  "base_lambda car age =
     (let l0 = 0.12;
          l1 = (if car = ''Sports'' then l0 * 2.0 else if car = ''Truck'' then l0 * 1.4 else l0);
          l2 = (if age < 25 then l1 * 1.6 else l1)
      in l2)"

text \<open>Lines 78-79: one severity draw, rounded to cents.\<close>

definition draw_amount :: "'g Generator \<Rightarrow> 'g \<Rightarrow> real \<times> 'g" where
  "draw_amount R g = (let (amt, g1) = lognormal R mu sigma g in (round2 amt, g1))"

text \<open>Lines 65-79, the body of the loop for one row of \<^verbatim>\<open>policy_info\<close>.\<close>

definition claims_of_policy ::
  "'g Generator \<Rightarrow> nat \<times> int \<times> string \<Rightarrow> 'g \<Rightarrow> (nat \<times> real \<times> string option) list \<times> 'g" where
  "claims_of_policy R info g =
     (case info of (pid, age, car) \<Rightarrow>
        let (n_claims, g1) = poisson R (base_lambda car age) g;
            (amts, g2) = draw_array (draw_amount R) n_claims g1
        in (map (\<lambda>amt. (pid, amt, None)) amts, g2))"

fun claims_rows ::
  "'g Generator \<Rightarrow> (nat \<times> int \<times> string) list \<Rightarrow> 'g \<Rightarrow> (nat \<times> real \<times> string option) list \<times> 'g" where
  "claims_rows R [] g = ([], g)"
| "claims_rows R (info # rest) g =
     (let (rows, g1) = claims_of_policy R info g;
          (more, g2) = claims_rows R rest g1
      in (rows @ more, g2))"

definition insert_claims :: "(nat \<times> real \<times> string option) list \<Rightarrow> claim list" where
  "insert_claims rows =
     map (\<lambda>(i, (pid, amt, d)). \<lparr>claim_id = Suc i, claim_policy_id = pid, claim_amount = amt, claim_date = d\<rparr>)
       (enumerate 0 rows)"

text \<open>
  Lines 44-84. \<^verbatim>\<open>policy_info\<close> is the result of \<^verbatim>\<open>SELECT policy_id, customer_age, car_type
  FROM Policies\<close>, read in row-id order. The claims are inserted only when there are some;
  the table is empty otherwise, which is what inserting no rows leaves as well.
\<close>

definition generate :: "'g Generator \<Rightarrow> nat \<Rightarrow> nat \<Rightarrow> database" where
  "generate R n seed =
     (let g0 = default_rng R seed;
          (prows, g1) = policy_rows R n g0;
          ps = insert_policies prows;
          policy_info = map (\<lambda>p. (policy_id p, customer_age p, car_type p)) ps;
          (crows, g2) = claims_rows R policy_info g1;
          cs = (if crows \<noteq> [] then insert_claims crows else [])
      in \<lparr>Policies = ps, Claims = cs\<rparr>)"


section \<open>The SQL queries\<close>

text \<open>
  \<^verbatim>\<open>FROM Policies p LEFT JOIN Claims c ON p.policy_id = c.policy_id\<close>: every policy with
  each of its claims, and a policy with no claim once, its claim columns NULL.
\<close>

type_synonym joined = "policy \<times> claim option"

definition join_rows :: "policy \<Rightarrow> claim list \<Rightarrow> joined list" where
  "join_rows p cs =
     (let ms = filter (\<lambda>c. policy_id p = claim_policy_id c) cs
      in if ms = [] then [(p, None)] else map (\<lambda>c. (p, Some c)) ms)"

definition left_join :: "policy list \<Rightarrow> claim list \<Rightarrow> joined list" where
  "left_join ps cs = concat (map (\<lambda>p. join_rows p cs) ps)"

definition c_claim_id :: "joined \<Rightarrow> nat option" where
  "c_claim_id r = map_option claim_id (snd r)"

definition c_claim_amount :: "joined \<Rightarrow> real option" where
  "c_claim_amount r = map_option claim_amount (snd r)"

text \<open>
  \<^verbatim>\<open>GROUP BY\<close>: the rows with equal key, one group per key that occurs. SQL leaves the
  order of the groups open; here it is that of \<open>remdups\<close>.
\<close>

definition group_by :: "('r \<Rightarrow> 'k) \<Rightarrow> 'r list \<Rightarrow> 'r list list" where
  "group_by key rows = map (\<lambda>k. filter (\<lambda>r. key r = k) rows) (remdups (map key rows))"

text \<open>The aggregates skip NULL; \<^verbatim>\<open>SUM\<close> of no value is NULL, \<^verbatim>\<open>COUNT\<close> of none is 0.\<close>

fun non_null :: "'a option list \<Rightarrow> 'a list" where
  "non_null [] = []"
| "non_null (None # vs) = non_null vs"
| "non_null (Some v # vs) = v # non_null vs"

definition sql_sum :: "real option list \<Rightarrow> real option" where
  "sql_sum vs = (if non_null vs = [] then None else Some (sum_list (non_null vs)))"

definition sql_count :: "'a option list \<Rightarrow> nat" where
  "sql_count vs = length (non_null vs)"

definition coalesce :: "'a option \<Rightarrow> 'a \<Rightarrow> 'a" where
  "coalesce v d = (case v of None \<Rightarrow> d | Some x \<Rightarrow> x)"

text \<open>
  \<^verbatim>\<open>CASE WHEN SUM(premium) = 0 THEN NULL ELSE claims * 1.0 / SUM(premium) END\<close>, the loss
  ratio of \<^verbatim>\<open>q_loss_by_car\<close> and \<^verbatim>\<open>q_age_groups\<close>. \<open>premium\<close> is NOT NULL and a group has a
  row, so the sum of the premiums is a number.
\<close>

definition sql_loss_ratio :: "real \<Rightarrow> real \<Rightarrow> real option" where
  "sql_loss_ratio claims premiums = (if premiums = 0 then None else Some (claims * 1.0 / premiums))"

subsection \<open>Query 5 (lines 155-160) and query 3 (lines 136-143)\<close>

record per_policy_row =
  pp_policy_id :: nat
  pp_customer_age :: int
  pp_car_type :: string
  pp_premium :: real
  pp_total_claims_amount :: real
  pp_claims_count :: nat

text \<open>
  The select list of both queries, on one group of \<^verbatim>\<open>GROUP BY p.policy_id\<close>. The bare
  columns of \<open>p\<close> are read from a row of the group (\<open>group_by\<close> makes no empty group).
\<close>

definition per_policy_select :: "joined list \<Rightarrow> per_policy_row" where
  "per_policy_select grp =
     (let p = fst (hd grp)
      in \<lparr>pp_policy_id = policy_id p, pp_customer_age = customer_age p, pp_car_type = car_type p,
          pp_premium = premium p,
          pp_total_claims_amount = coalesce (sql_sum (map c_claim_amount grp)) 0.0,
          pp_claims_count = sql_count (map c_claim_id grp)\<rparr>)"

definition q_per_policy :: "database \<Rightarrow> per_policy_row list" where
  "q_per_policy db =
     map per_policy_select (group_by (\<lambda>r. policy_id (fst r)) (left_join (Policies db) (Claims db)))"

text \<open>
  \<^verbatim>\<open>ORDER BY total_claims_amount DESC LIMIT 10\<close>. SQL leaves the order of rows with equal
  amounts open; the stable sort keeps them in the order of the groups.
\<close>

definition q_top_policies :: "database \<Rightarrow> per_policy_row list" where
  "q_top_policies db =
     take 10 (sort_key (\<lambda>r. - pp_total_claims_amount r)
       (map per_policy_select
          (group_by (\<lambda>r. policy_id (fst r)) (left_join (Policies db) (Claims db)))))"

subsection \<open>Query 1 (lines 89-100)\<close>




subsection \<open>Query 2 (lines 104-132)\<close>

record policy_claims_row =
  pc_policy_id :: nat
  pc_customer_age :: int
  pc_premium :: real
  pc_claims_count :: nat
  pc_claims_amount :: real

text \<open>The common table expression \<^verbatim>\<open>policy_claims\<close>.\<close>

definition policy_claims :: "database \<Rightarrow> policy_claims_row list" where
  "policy_claims db =
     map (\<lambda>grp. let p = fst (hd grp)
                in \<lparr>pc_policy_id = policy_id p, pc_customer_age = customer_age p,
                    pc_premium = premium p,
                    pc_claims_count = coalesce (Some (sql_count (map c_claim_id grp))) 0,
                    pc_claims_amount = coalesce (sql_sum (map c_claim_amount grp)) 0.0\<rparr>)
       (group_by (\<lambda>r. (policy_id (fst r), customer_age (fst r), premium (fst r)))
          (left_join (Policies db) (Claims db)))"

text \<open>The \<^verbatim>\<open>CASE\<close> of lines 116-123; \<^verbatim>\<open>x BETWEEN a AND b\<close> is \<open>a \<le> x \<and> x \<le> b\<close>.\<close>

definition age_group :: "int \<Rightarrow> string" where
  "age_group age =
     (if 18 \<le> age \<and> age \<le> 29 then ''18-29''
      else if 30 \<le> age \<and> age \<le> 39 then ''30-39''
      else if 40 \<le> age \<and> age \<le> 49 then ''40-49''
      else if 50 \<le> age \<and> age \<le> 59 then ''50-59''
      else if 60 \<le> age \<and> age \<le> 69 then ''60-69''
      else ''70+'')"

record age_group_row =
  ag_age_group :: string
  ag_num_policies :: nat
  ag_avg_claims_per_policy :: real
  ag_total_claims_amount :: real
  ag_total_premiums :: real
  ag_loss_ratio :: "real option"

definition age_group_select :: "policy_claims_row list \<Rightarrow> age_group_row" where
  "age_group_select grp =
     \<lparr>ag_age_group = age_group (pc_customer_age (hd grp)),
      ag_num_policies = length grp,
      ag_avg_claims_per_policy = real (sum_list (map pc_claims_count grp)) / real (length grp),
      ag_total_claims_amount = sum_list (map pc_claims_amount grp),
      ag_total_premiums = sum_list (map pc_premium grp),
      ag_loss_ratio =
        sql_loss_ratio (sum_list (map pc_claims_amount grp)) (sum_list (map pc_premium grp))\<rparr>"

text \<open>\<^verbatim>\<open>GROUP BY age_group ORDER BY age_group\<close>: the labels in the order of their bytes.\<close>

definition q_age_groups :: "database \<Rightarrow> age_group_row list" where
  "q_age_groups db =
     sort_key ag_age_group
       (map age_group_select (group_by (\<lambda>r. age_group (pc_customer_age r)) (policy_claims db)))"

section \<open>The summary metrics (lines 224-229)\<close>

text \<open>
  The summary is computed by pandas on the frame of query 5, with no SQL. A column of a
  frame with a row is a float64 array, and dividing two float64 sums raises nothing: a
  zero divisor gives an infinity or NaN. The columns of a frame with no row have dtype
  object, their sums are the Python integer 0, and \<^verbatim>\<open>0 / 0\<close> raises.
\<close>

datatype py_error = ZeroDivisionError | OperationalError

datatype float64 = Finite real | PosInf | NegInf | NaN

definition float64_divide :: "real \<Rightarrow> real \<Rightarrow> float64" where
  "float64_divide a b =
     (if b \<noteq> 0 then Finite (a / b)
      else if a = 0 then NaN else if 0 < a then PosInf else NegInf)"

record summary =
  total_policies :: nat
  total_claims_records :: nat
  total_claims_amount :: real
  average_loss_ratio_overall :: float64

definition summary_metrics :: "per_policy_row list \<Rightarrow> nat \<Rightarrow> py_error + summary" where
  "summary_metrics per_policy n_claims_rows =
     (if per_policy = [] then Inl ZeroDivisionError
      else Inr \<lparr>total_policies = length per_policy,
                total_claims_records = n_claims_rows,
                total_claims_amount = sum_list (map pp_total_claims_amount per_policy),
                average_loss_ratio_overall =
                  float64_divide (sum_list (map pp_total_claims_amount per_policy))
                    (sum_list (map pp_premium per_policy))\<rparr>)"

text \<open>
  The summary of a database: \<^verbatim>\<open>len(claims_rows)\<close> is the number of rows inserted into
  \<open>Claims\<close>.
\<close>

definition summary_of :: "database \<Rightarrow> py_error + summary" where
  "summary_of db = summary_metrics (q_per_policy db) (length (Claims db))"

section \<open>A run of the script (lines 12-84)\<close>

text \<open>
  What a run finds and leaves behind is the file at \<^verbatim>\<open>DB_PATH\<close>: absent, or a database
  with no table yet, or one that has the two tables. The generator object is created
  anew in every run, from the seed.
\<close>

datatype db_state = NoTables | Tables database

record world =
  db_file :: "db_state option"


text \<open>Line 20: \<^verbatim>\<open>sqlite3.connect\<close> opens the file, and a new, empty database when there is none.\<close>

definition sqlite3_connect :: "world \<Rightarrow> db_state" where
  "sqlite3_connect w = (case db_file w of None \<Rightarrow> NoTables | Some st \<Rightarrow> st)"

text \<open>Lines 24-42: \<^verbatim>\<open>CREATE TABLE\<close> raises when the table is there already.\<close>

definition create_schema :: "db_state \<Rightarrow> py_error + database" where
  "create_schema st =
     (case st of NoTables \<Rightarrow> Inr \<lparr>Policies = [], Claims = []\<rparr> | Tables db \<Rightarrow> Inl OperationalError)"


section \<open>The specification's words\<close>

text \<open>
  The factors of the claim frequency as the specification lists them: the car type's
  (Sports 2.0, Truck 1.4, the others 1.0) and the age's (below 25 1.6, else 1.0).
\<close>

definition car_type_factor :: "string \<Rightarrow> real" where
  "car_type_factor car = (if car = ''Sports'' then 2.0 else if car = ''Truck'' then 1.4 else 1.0)"

definition age_factor :: "int \<Rightarrow> real" where
  "age_factor age = (if age < 25 then 1.6 else 1.0)"

text \<open>
  The six age bands of the specification, in their canonical order, and what it is for an
  age to lie in a band.
\<close>

definition age_buckets :: "string list" where
  "age_buckets = [''18-29'', ''30-39'', ''40-49'', ''50-59'', ''60-69'', ''70+'']"

definition in_bucket :: "string \<Rightarrow> int \<Rightarrow> bool" where
  "in_bucket b age \<longleftrightarrow>
     b = ''18-29'' \<and> 18 \<le> age \<and> age \<le> 29 \<or>
     b = ''30-39'' \<and> 30 \<le> age \<and> age \<le> 39 \<or>
     b = ''40-49'' \<and> 40 \<le> age \<and> age \<le> 49 \<or>
     b = ''50-59'' \<and> 50 \<le> age \<and> age \<le> 59 \<or>
     b = ''60-69'' \<and> 60 \<le> age \<and> age \<le> 69 \<or>
     b = ''70+'' \<and> 70 \<le> age"

section \<open>Concrete inputs\<close>

text \<open>
  A generator to run the model on: its state is a counter, every draw reads the counter
  and advances it by one. Its draws stay within the ranges numpy documents.
\<close>

definition counter_rng :: "nat Generator" where
  "counter_rng =
     \<lparr>default_rng = (\<lambda>seed. seed),
      integers = (\<lambda>lo hi g. (lo + int g mod (hi - lo), Suc g)),
      choice = (\<lambda>a p g. (a ! (g mod length a), Suc g)),
      normal = (\<lambda>m s g. (m + s * (real (g mod 5) - 2), Suc g)),
      poisson = (\<lambda>lam g. (g mod 3, Suc g)),
      lognormal = (\<lambda>m s g. (real (Suc (g mod 7)) * 1000.005, Suc g))\<rparr>"

text \<open>
  The same generator, with every severity draw \<open>exp (m + s * 0.45)\<close>; for the script's
  \<open>mu\<close> and \<open>sigma\<close> this is the median, 7000.
\<close>

definition median_rng :: "nat Generator" where
  "median_rng = counter_rng\<lparr>lognormal := (\<lambda>m s g. (exp (m + s * 0.45), Suc g))\<rparr>"

text \<open>A table with a policy of age 5, one of age 35 and one of age 75, and no claims.\<close>

definition under_age_db :: database where
  "under_age_db =
     \<lparr>Policies = [\<lparr>policy_id = 1, customer_age = 5, car_type = ''Sedan'', premium = 1000\<rparr>,
                  \<lparr>policy_id = 2, customer_age = 35, car_type = ''SUV'', premium = 1200\<rparr>,
                  \<lparr>policy_id = 3, customer_age = 75, car_type = ''Truck'', premium = 900\<rparr>],
       Claims = []\<rparr>"

text \<open>A database with one policy of premium 0 and one claim of 100 on it.\<close>

definition zero_premium_db :: database where
  "zero_premium_db =
     \<lparr>Policies = [\<lparr>policy_id = 1, customer_age = 30, car_type = ''Sedan'', premium = 0\<rparr>],
      Claims = [\<lparr>claim_id = 1, claim_policy_id = 1, claim_amount = 100, claim_date = None\<rparr>]\<rparr>"

section \<open>The generator: lemmas\<close>

lemma length_draw_array: "length (fst (draw_array f n g)) = n"
  by (induction n arbitrary: g) (simp_all add: split_beta)

lemma draw_array_numeral:
  "draw_array f (numeral k) g =
     (let (x, g1) = f g; (xs, g2) = draw_array f (pred_numeral k) g1 in (x # xs, g2))"
  by (simp add: numeral_eq_Suc)

lemma rint_cases: "rint x = \<lfloor>x\<rfloor> \<or> rint x = \<lfloor>x\<rfloor> + 1"
  by (simp add: rint_def Let_def)

lemma rint_ge: "of_int k \<le> x \<Longrightarrow> k \<le> rint x"
proof -
  assume "of_int k \<le> x"
  then have "k \<le> \<lfloor>x\<rfloor>" by (simp add: le_floor_iff)
  with rint_cases [of x] show ?thesis by auto
qed

lemma rint_le: "x \<le> of_int k \<Longrightarrow> rint x \<le> k"
proof (cases "x - of_int \<lfloor>x\<rfloor> < 1/2")
  case True
  assume "x \<le> of_int k"
  then have "\<lfloor>x\<rfloor> \<le> k" by (simp add: floor_le_iff)
  with True show ?thesis by (simp add: rint_def Let_def)
next
  case False
  assume xk: "x \<le> of_int k"
  from False have "of_int \<lfloor>x\<rfloor> < x" by linarith
  with xk have "of_int \<lfloor>x\<rfloor> < (of_int k :: real)" by linarith
  then have "\<lfloor>x\<rfloor> < k" by simp
  with rint_cases [of x] show ?thesis by auto
qed

lemma rint_pos: "1/2 < x \<Longrightarrow> 0 < rint x"
proof -
  assume h: "1/2 < x"
  then have f0: "0 \<le> \<lfloor>x\<rfloor>" by (simp add: le_floor_iff)
  show ?thesis
  proof (cases "\<lfloor>x\<rfloor> = 0")
    case True
    with h show ?thesis by (simp add: rint_def Let_def)
  next
    case False
    with f0 have "0 < \<lfloor>x\<rfloor>" by linarith
    with rint_cases [of x] show ?thesis by auto
  qed
qed

lemma round2_bounds: "400 \<le> x \<Longrightarrow> x \<le> 4000 \<Longrightarrow> 400 \<le> round2 x \<and> round2 x \<le> 4000"
proof -
  assume a: "400 \<le> x" and b: "x \<le> 4000"
  from a have "of_int 40000 \<le> x * 100" by simp
  then have lo: "40000 \<le> rint (x * 100)" by (rule rint_ge)
  from b have "x * 100 \<le> of_int 400000" by simp
  then have hi: "rint (x * 100) \<le> 400000" by (rule rint_le)
  have "400 \<le> real_of_int (rint (x * 100)) / 100" using lo by simp
  moreover have "real_of_int (rint (x * 100)) / 100 \<le> 4000" using hi by simp
  ultimately show ?thesis by (simp add: round2_def)
qed

lemma round2_nonneg: "0 \<le> x \<Longrightarrow> 0 \<le> round2 x"
proof -
  assume "0 \<le> x"
  then have "of_int 0 \<le> x * 100" by simp
  then have "0 \<le> rint (x * 100)" by (rule rint_ge)
  then show ?thesis by (simp add: round2_def)
qed

lemma round2_pos: "0.005 < x \<Longrightarrow> 0 < round2 x"
proof -
  assume "0.005 < x"
  then have "1/2 < x * 100" by simp
  then have "0 < rint (x * 100)" by (rule rint_pos)
  then show ?thesis by (simp add: round2_def)
qed

lemma draw_array_elem: "x \<in> set (fst (draw_array f n g)) \<Longrightarrow> \<exists>g'. x = fst (f g')"
  by (induction n arbitrary: g) (auto simp: split_beta)


lemma policy_rows_elem:
  assumes "row \<in> set (fst (policy_rows R n g0))"
  shows "\<exists>g g' x. row = (fst (integers R 18 80 g),
            fst (choice R [''Sedan'', ''SUV'', ''Truck'', ''Sports''] [0.4, 0.3, 0.2, 0.1] g'),
            round2 (clip 400 4000 x))"
proof -
  define ages where "ages = fst (draw_array (integers R 18 80) n g0)"
  define g1 where "g1 = snd (draw_array (integers R 18 80) n g0)"
  define cars where "cars = fst (draw_array (choice R [''Sedan'', ''SUV'', ''Truck'', ''Sports''] [0.4, 0.3, 0.2, 0.1]) n g1)"
  define g2 where "g2 = snd (draw_array (choice R [''Sedan'', ''SUV'', ''Truck'', ''Sports''] [0.4, 0.3, 0.2, 0.1]) n g1)"
  define draws where "draws = fst (draw_array (normal R 1200 250) n g2)"
  have len: "length ages = n" "length cars = n" "length draws = n"
    by (simp_all add: ages_def cars_def draws_def length_draw_array)
  have rows: "fst (policy_rows R n g0) =
      map (\<lambda>i. (ages ! i, cars ! i, map (\<lambda>x. round2 (clip 400 4000 x)) draws ! i)) [0..<n]"
    by (simp add: policy_rows_def split_beta Let_def ages_def g1_def cars_def g2_def draws_def)
  from assms obtain i where i: "i < n"
    and row: "row = (ages ! i, cars ! i, round2 (clip 400 4000 (draws ! i)))"
    using len by (auto simp: rows)
  from i len have "ages ! i \<in> set ages" "cars ! i \<in> set cars" by simp_all
  then obtain g g' where "ages ! i = fst (integers R 18 80 g)"
    "cars ! i = fst (choice R [''Sedan'', ''SUV'', ''Truck'', ''Sports''] [0.4, 0.3, 0.2, 0.1] g')"
    unfolding ages_def cars_def by (blast dest: draw_array_elem)
  with row show ?thesis by blast
qed


lemma enumerate_ids:
  "map (\<lambda>x. Suc (fst x)) (enumerate k rows) = [Suc k..<Suc (k + length rows)]"
proof (induction rows arbitrary: k)
  case Nil
  then show ?case by simp
next
  case (Cons r rows)
  have "[Suc k..<Suc (k + length (r # rows))] = Suc k # [Suc (Suc k)..<Suc (k + length (r # rows))]"
    by (rule upt_conv_Cons) simp
  with Cons [of "Suc k"] show ?case by simp
qed

lemma insert_policies_ids: "map policy_id (insert_policies rows) = [1..<Suc (length rows)]"
  using enumerate_ids [of 0 rows] by (simp add: insert_policies_def split_beta comp_def)

lemma insert_policies_distinct: "distinct (map policy_id (insert_policies rows))"
  by (simp add: insert_policies_ids)

lemma insert_policies_elem:
  "p \<in> set (insert_policies rows) \<Longrightarrow> (customer_age p, car_type p, premium p) \<in> set rows"
  by (auto simp: insert_policies_def in_set_enumerate_eq) (metis nth_mem)

lemma insert_claims_Nil: "insert_claims [] = []"
  by (simp add: insert_claims_def)

lemma insert_claims_elem:
  "c \<in> set (insert_claims rows) \<Longrightarrow> (claim_policy_id c, claim_amount c, claim_date c) \<in> set rows"
  by (auto simp: insert_claims_def in_set_enumerate_eq) (metis nth_mem)

lemma Policies_generate:
  "Policies (generate R n seed) = insert_policies (fst (policy_rows R n (default_rng R seed)))"
  by (simp add: generate_def Let_def split_beta)

lemma Claims_generate:
  "Claims (generate R n seed) =
     insert_claims (fst (claims_rows R
        (map (\<lambda>p. (policy_id p, customer_age p, car_type p)) (Policies (generate R n seed)))
        (snd (policy_rows R n (default_rng R seed)))))"
  by (simp add: generate_def Let_def split_beta insert_claims_Nil)


lemma distinct_Policies_generate: "distinct (map policy_id (Policies (generate R n seed)))"
  by (simp add: Policies_generate insert_policies_distinct)

lemma claims_rows_elem:
  "(pid, amt, d) \<in> set (fst (claims_rows R infos g)) \<Longrightarrow>
     pid \<in> fst ` set infos \<and> (\<exists>g'. amt = fst (draw_amount R g')) \<and> d = None"
proof (induction infos arbitrary: g)
  case Nil
  then show ?case by simp
next
  case (Cons info rest)
  then show ?case
    by (cases info) (auto simp: split_beta claims_of_policy_def Let_def dest: draw_array_elem)
qed

lemma Claims_generate_elem:
  assumes "c \<in> set (Claims (generate R n seed))"
  shows "claim_policy_id c \<in> policy_id ` set (Policies (generate R n seed)) \<and>
         (\<exists>g. claim_amount c = round2 (fst (lognormal R mu sigma g))) \<and> claim_date c = None"
proof -
  from assms have "(claim_policy_id c, claim_amount c, claim_date c) \<in>
      set (fst (claims_rows R
        (map (\<lambda>p. (policy_id p, customer_age p, car_type p)) (Policies (generate R n seed)))
        (snd (policy_rows R n (default_rng R seed)))))"
    by (subst (asm) Claims_generate) (rule insert_claims_elem)
  from claims_rows_elem [OF this] show ?thesis
    by (auto simp: draw_amount_def split_beta image_iff)
qed

lemma referential_integrity:
  "c \<in> set (Claims (generate R n seed)) \<Longrightarrow>
     claim_policy_id c \<in> policy_id ` set (Policies (generate R n seed))"
  by (simp add: Claims_generate_elem)

lemma counter_rng_simps:
  "default_rng counter_rng seed = seed"
  "integers counter_rng lo hi g = (lo + int g mod (hi - lo), Suc g)"
  "choice counter_rng a p g = (a ! (g mod length a), Suc g)"
  "normal counter_rng m s g = (m + s * (real (g mod 5) - 2), Suc g)"
  "poisson counter_rng lam g = (g mod 3, Suc g)"
  "lognormal counter_rng m s g = (real (Suc (g mod 7)) * 1000.005, Suc g)"
  by (simp_all add: counter_rng_def)

lemma counter_rng_contract: "numpy_contract counter_rng"
  unfolding numpy_contract_def
proof (intro conjI allI impI)
  fix lo hi :: int and g :: nat
  assume "lo < hi"
  then have "0 \<le> int g mod (hi - lo)" "int g mod (hi - lo) < hi - lo" by simp_all
  then show "lo \<le> fst (integers counter_rng lo hi g)" "fst (integers counter_rng lo hi g) < hi"
    by (simp_all add: counter_rng_simps)
next
  fix a :: "string list" and p :: "real list" and g :: nat
  assume "a \<noteq> []"
  then show "fst (choice counter_rng a p g) \<in> set a" by (simp add: counter_rng_simps)
next
  fix m s :: real and g :: nat
  show "0 < fst (lognormal counter_rng m s g)" by (simp add: counter_rng_simps)
qed

lemma policy_rows_counter_rng:
  "policy_rows counter_rng 3 42 =
     ([(60, ''SUV'', 1450), (61, ''Truck'', 1700), (62, ''Sports'', 700)], 51)"
  by (simp add: counter_rng_simps policy_rows_def round2_def rint_def clip_def Let_def
      draw_array_numeral upt_conv_Cons)

lemma generate_counter_rng:
  "generate counter_rng 3 42 =
     \<lparr>Policies = [\<lparr>policy_id = 1, customer_age = 60, car_type = ''SUV'', premium = 1450\<rparr>,
                  \<lparr>policy_id = 2, customer_age = 61, car_type = ''Truck'', premium = 1700\<rparr>,
                  \<lparr>policy_id = 3, customer_age = 62, car_type = ''Sports'', premium = 700\<rparr>],
       Claims = [\<lparr>claim_id = 1, claim_policy_id = 2, claim_amount = 5000.02, claim_date = None\<rparr>]\<rparr>"
  by (simp add: generate_def policy_rows_counter_rng insert_policies_def insert_claims_def
      claims_of_policy_def draw_amount_def round2_def rint_def Let_def counter_rng_simps)

section \<open>The queries: lemmas\<close>

lemma join_rows_nonempty: "join_rows p cs \<noteq> []"
  by (simp add: join_rows_def Let_def)

lemma join_rows_fst: "r \<in> set (join_rows p cs) \<Longrightarrow> fst r = p"
  by (auto simp: join_rows_def Let_def split: if_splits)

lemma remdups_replicate_append:
  "a \<notin> set zs \<Longrightarrow> remdups (replicate (Suc m) a @ zs) = a # remdups zs"
  by (induction m) simp_all

lemma group_by_append:
  assumes "xs \<noteq> []" and "\<forall>x\<in>set xs. key x = a" and "\<forall>y\<in>set ys. key y \<noteq> a"
  shows "group_by key (xs @ ys) = xs # group_by key ys"
proof -
  from assms(1) obtain m where m: "length xs = Suc m" by (cases xs) auto
  from assms(2) have "map key xs = replicate (length xs) a"
    by (simp add: map_replicate_const [symmetric] cong: map_cong)
  with m have keys: "map key xs = replicate (Suc m) a" by simp
  from assms(3) have notin: "a \<notin> set (map key ys)" by auto
  have rd: "remdups (map key (xs @ ys)) = a # remdups (map key ys)"
    using remdups_replicate_append [OF notin, of m] by (simp add: keys)
  have first: "filter (\<lambda>r. key r = a) (xs @ ys) = xs"
    using assms(2,3) by (simp add: filter_id_conv filter_empty_conv)
  have rest: "map (\<lambda>k. filter (\<lambda>r. key r = k) (xs @ ys)) (remdups (map key ys)) =
              map (\<lambda>k. filter (\<lambda>r. key r = k) ys) (remdups (map key ys))"
  proof (rule map_cong [OF refl])
    fix k assume "k \<in> set (remdups (map key ys))"
    with notin have "k \<noteq> a" by auto
    with assms(2) have "filter (\<lambda>r. key r = k) xs = []" by (auto simp: filter_empty_conv)
    then show "filter (\<lambda>r. key r = k) (xs @ ys) = filter (\<lambda>r. key r = k) ys" by simp
  qed
  have "group_by key (xs @ ys) =
      map (\<lambda>k. filter (\<lambda>r. key r = k) (xs @ ys)) (a # remdups (map key ys))"
    by (simp only: group_by_def rd)
  also have "\<dots> = xs # map (\<lambda>k. filter (\<lambda>r. key r = k) (xs @ ys)) (remdups (map key ys))"
    by (simp only: list.map first)
  also have "\<dots> = xs # group_by key ys"
    by (simp only: rest group_by_def)
  finally show ?thesis .
qed

lemma left_join_fst: "r \<in> set (left_join ps cs) \<Longrightarrow> fst r \<in> set ps"
  by (auto simp: left_join_def dest: join_rows_fst)

lemma group_by_left_join:
  assumes "distinct (map k ps)"
  shows "group_by (\<lambda>r. k (fst r)) (left_join ps cs) = map (\<lambda>p. join_rows p cs) ps"
  using assms
proof (induction ps)
  case Nil
  then show ?case by (simp add: left_join_def group_by_def)
next
  case (Cons p ps)
  have lj: "left_join (p # ps) cs = join_rows p cs @ left_join ps cs"
    by (simp add: left_join_def)
  have a: "\<forall>x\<in>set (join_rows p cs). k (fst x) = k p"
    by (auto dest: join_rows_fst)
  have b: "\<forall>y\<in>set (left_join ps cs). k (fst y) \<noteq> k p"
  proof
    fix y assume "y \<in> set (left_join ps cs)"
    then have "fst y \<in> set ps" by (rule left_join_fst)
    with Cons.prems show "k (fst y) \<noteq> k p" by (metis distinct.simps(2) imageI list.simps(9) set_map)
  qed
  from Cons have IH: "group_by (\<lambda>r. k (fst r)) (left_join ps cs) = map (\<lambda>p. join_rows p cs) ps"
    by simp
  show ?case
    by (simp add: lj group_by_append [OF join_rows_nonempty a b] IH)
qed

lemma non_null_map_Some: "non_null (map (\<lambda>x. Some (f x)) xs) = map f xs"
  by (induction xs) simp_all

lemma join_rows_amounts:
  "coalesce (sql_sum (map c_claim_amount (join_rows p cs))) 0 =
     sum_list (map claim_amount (filter (\<lambda>c. policy_id p = claim_policy_id c) cs))"
  by (simp add: join_rows_def Let_def sql_sum_def coalesce_def c_claim_amount_def comp_def
      non_null_map_Some)

lemma join_rows_count:
  "sql_count (map c_claim_id (join_rows p cs)) =
     length (filter (\<lambda>c. policy_id p = claim_policy_id c) cs)"
  by (simp add: join_rows_def Let_def sql_count_def c_claim_id_def comp_def non_null_map_Some)

lemma join_rows_hd: "fst (hd (join_rows p cs)) = p"
  using join_rows_nonempty [of p cs] join_rows_fst [of "hd (join_rows p cs)" p cs] by simp

lemma per_policy_select_join_rows:
  "per_policy_select (join_rows p cs) =
     \<lparr>pp_policy_id = policy_id p, pp_customer_age = customer_age p, pp_car_type = car_type p,
      pp_premium = premium p,
      pp_total_claims_amount =
        sum_list (map claim_amount (filter (\<lambda>c. policy_id p = claim_policy_id c) cs)),
      pp_claims_count = length (filter (\<lambda>c. policy_id p = claim_policy_id c) cs)\<rparr>"
  by (simp add: per_policy_select_def Let_def join_rows_hd join_rows_amounts join_rows_count)

lemma per_policy_rows:
  assumes "distinct (map policy_id (Policies db))"
  shows "map per_policy_select
           (group_by (\<lambda>r. policy_id (fst r)) (left_join (Policies db) (Claims db))) =
         map (\<lambda>p. \<lparr>pp_policy_id = policy_id p, pp_customer_age = customer_age p,
                    pp_car_type = car_type p, pp_premium = premium p,
                    pp_total_claims_amount =
                      sum_list (map claim_amount
                        (filter (\<lambda>c. policy_id p = claim_policy_id c) (Claims db))),
                    pp_claims_count =
                      length (filter (\<lambda>c. policy_id p = claim_policy_id c) (Claims db))\<rparr>)
           (Policies db)"
  by (simp add: group_by_left_join [OF assms] per_policy_select_join_rows comp_def)

lemma q_per_policy_rows:
  assumes "distinct (map policy_id (Policies db))"
  shows "q_per_policy db =
         map (\<lambda>p. \<lparr>pp_policy_id = policy_id p, pp_customer_age = customer_age p,
                    pp_car_type = car_type p, pp_premium = premium p,
                    pp_total_claims_amount =
                      sum_list (map claim_amount
                        (filter (\<lambda>c. policy_id p = claim_policy_id c) (Claims db))),
                    pp_claims_count =
                      length (filter (\<lambda>c. policy_id p = claim_policy_id c) (Claims db))\<rparr>)
           (Policies db)"
  unfolding q_per_policy_def by (rule per_policy_rows [OF assms])

lemma filter_distinct_key_length:
  "distinct (map f xs) \<Longrightarrow> a \<in> set (map f xs) \<Longrightarrow> length (filter (\<lambda>r. f r = a) xs) = 1"
proof (induction xs)
  case Nil
  then show ?case by simp
next
  case (Cons x xs)
  show ?case
  proof (cases "f x = a")
    case True
    from Cons.prems(1) have "f x \<notin> f ` set xs" by simp
    then have "\<forall>y\<in>set xs. f y \<noteq> f x" by (metis imageI)
    with True have "filter (\<lambda>r. f r = a) xs = []"
      by (simp add: filter_empty_conv)
    with True show ?thesis by simp
  next
    case False
    with Cons show ?thesis by auto
  qed
qed

lemma sum_list_indicator:
  "distinct (map f xs) \<Longrightarrow> a \<in> set (map f xs) \<Longrightarrow>
     sum_list (map (\<lambda>x. if f x = a then (v::real) else 0) xs) = v"
proof (induction xs)
  case Nil
  then show ?case by simp
next
  case (Cons x xs)
  show ?case
  proof (cases "f x = a")
    case True
    from Cons.prems(1) have "f x \<notin> f ` set xs" by simp
    then have "\<forall>y\<in>set xs. f y \<noteq> f x" by (metis imageI)
    with True have "\<forall>y\<in>set xs. f y \<noteq> a" by simp
    then have "sum_list (map (\<lambda>x. if f x = a then v else 0) xs) = 0"
      by (induction xs) simp_all
    with True show ?thesis by simp
  next
    case False
    with Cons show ?thesis by auto
  qed
qed

lemma sum_matching_claims:
  assumes "distinct (map policy_id ps)"
    and "\<forall>c\<in>set cs. claim_policy_id c \<in> set (map policy_id ps)"
  shows "sum_list (map (\<lambda>p. sum_list (map claim_amount
             (filter (\<lambda>c. policy_id p = claim_policy_id c) cs))) ps) =
         sum_list (map claim_amount cs)"
  using assms(2)
proof (induction cs)
  case Nil
  then show ?case by simp
next
  case (Cons c cs)
  have split: "sum_list (map claim_amount (filter (\<lambda>c. policy_id p = claim_policy_id c) (c # cs))) =
      (if policy_id p = claim_policy_id c then claim_amount c else 0) +
      sum_list (map claim_amount (filter (\<lambda>c. policy_id p = claim_policy_id c) cs))" for p
    by simp
  from Cons.prems have "claim_policy_id c \<in> set (map policy_id ps)" by simp
  from sum_list_indicator [OF assms(1) this]
  have one: "sum_list (map (\<lambda>p. if policy_id p = claim_policy_id c then claim_amount c else 0) ps) =
      claim_amount c" .
  from Cons have IH: "sum_list (map (\<lambda>p. sum_list (map claim_amount
             (filter (\<lambda>c. policy_id p = claim_policy_id c) cs))) ps) =
         sum_list (map claim_amount cs)" by simp
  show ?case
    by (simp only: split sum_list_addf one IH list.map sum_list.Cons)
qed

lemma q_per_policy_ids:
  "distinct (map policy_id (Policies db)) \<Longrightarrow>
     map pp_policy_id (q_per_policy db) = map policy_id (Policies db)"
  by (simp add: q_per_policy_rows comp_def)

lemma q_per_policy_total:
  assumes "distinct (map policy_id (Policies db))" and "r \<in> set (q_per_policy db)"
  shows "pp_total_claims_amount r =
           sum_list (map claim_amount (filter (\<lambda>c. pp_policy_id r = claim_policy_id c) (Claims db)))
         \<and> pp_claims_count r = length (filter (\<lambda>c. pp_policy_id r = claim_policy_id c) (Claims db))"
  using assms(2) by (auto simp: q_per_policy_rows [OF assms(1)])

lemma q_top_policies_conv:
  "q_top_policies db = take 10 (sort_key (\<lambda>r. - pp_total_claims_amount r) (q_per_policy db))"
  by (simp add: q_top_policies_def q_per_policy_def)

lemma q_top_policies_counter_rng:
  "map pp_total_claims_amount (q_top_policies (generate counter_rng 3 42)) = [5000.02, 0, 0]"
  unfolding generate_counter_rng
  by (simp add: q_top_policies_def left_join_def join_rows_def group_by_def per_policy_select_def
      sql_sum_def sql_count_def coalesce_def c_claim_amount_def c_claim_id_def Let_def)

lemma distinct_map_finer:
  assumes "distinct (map f xs)" and "\<And>x y. g x = g y \<Longrightarrow> f x = f y"
  shows "distinct (map g xs)"
proof -
  from assms(1) have d: "distinct xs" and inj: "inj_on f (set xs)"
    by (simp_all add: distinct_map)
  have "inj_on g (set xs)"
  proof (rule inj_onI)
    fix x y assume xy: "x \<in> set xs" "y \<in> set xs" and "g x = g y"
    then have "f x = f y" by (intro assms(2))
    with inj xy show "x = y" by (simp add: inj_on_def)
  qed
  with d show ?thesis by (simp add: distinct_map)
qed

lemma policy_claims_ages:
  assumes "distinct (map policy_id (Policies db))"
  shows "map pc_customer_age (policy_claims db) = map customer_age (Policies db)"
proof -
  have "distinct (map (\<lambda>p. (policy_id p, customer_age p, premium p)) (Policies db))"
    by (rule distinct_map_finer [OF assms]) simp
  then have grp: "group_by (\<lambda>r. (policy_id (fst r), customer_age (fst r), premium (fst r)))
          (left_join (Policies db) (Claims db)) = map (\<lambda>p. join_rows p (Claims db)) (Policies db)"
    by (rule group_by_left_join)
  show ?thesis
    unfolding policy_claims_def grp by (simp add: Let_def comp_def join_rows_hd)
qed

lemma sum_list_indicator_nat:
  "distinct ks \<Longrightarrow> a \<in> set ks \<Longrightarrow> sum_list (map (\<lambda>k. if a = k then (1::nat) else 0) ks) = 1"
proof (induction ks)
  case Nil
  then show ?case by simp
next
  case (Cons k ks)
  show ?case
  proof (cases "a = k")
    case True
    with Cons.prems have "\<forall>y\<in>set ks. a \<noteq> y" by auto
    then have "sum_list (map (\<lambda>k. if a = k then (1::nat) else 0) ks) = 0"
      by (induction ks) simp_all
    with True show ?thesis by simp
  next
    case False
    with Cons show ?thesis by auto
  qed
qed

lemma sum_group_sizes:
  assumes "distinct ks"
  shows "set (map key rows) \<subseteq> set ks \<Longrightarrow>
     sum_list (map (\<lambda>k. length (filter (\<lambda>r. key r = k) rows)) ks) = length rows"
proof (induction rows)
  case Nil
  then show ?case by simp
next
  case (Cons r rows)
  have split: "length (filter (\<lambda>x. key x = k) (r # rows)) =
      (if key r = k then 1 else 0) + length (filter (\<lambda>x. key x = k) rows)" for k
    by simp
  from Cons.prems have "key r \<in> set ks" by simp
  from sum_list_indicator_nat [OF assms this]
  have one: "sum_list (map (\<lambda>k. if key r = k then (1::nat) else 0) ks) = 1" .
  from Cons have IH: "sum_list (map (\<lambda>k. length (filter (\<lambda>r. key r = k) rows)) ks) = length rows"
    by simp
  show ?case by (simp only: split sum_list_addf one IH list.size)
qed

lemma group_by_sizes: "sum_list (map length (group_by key rows)) = length rows"
  using sum_group_sizes [of "remdups (map key rows)" key rows]
  by (simp add: group_by_def comp_def)

lemma group_by_keys: "map (\<lambda>g. key (hd g)) (group_by key rows) = remdups (map key rows)"
proof -
  have "key (hd (filter (\<lambda>r. key r = k) rows)) = k" if "k \<in> set (remdups (map key rows))" for k
  proof -
    from that have "filter (\<lambda>r. key r = k) rows \<noteq> []" by (auto simp: filter_empty_conv)
    then have "hd (filter (\<lambda>r. key r = k) rows) \<in> set (filter (\<lambda>r. key r = k) rows)"
      by (rule hd_in_set)
    then show ?thesis by simp
  qed
  then have "map (\<lambda>k. key (hd (filter (\<lambda>r. key r = k) rows))) (remdups (map key rows)) =
      remdups (map key rows)"
    by (rule map_idI)
  then show ?thesis by (simp add: group_by_def comp_def)
qed

lemma sum_list_insort_key:
  "sum_list (map f (insort_key k x xs)) = (f x :: nat) + sum_list (map f xs)"
  by (induction xs) simp_all

lemma sum_list_sort_key: "sum_list (map f (sort_key k xs)) = (sum_list (map f xs) :: nat)"
  by (induction xs) (simp_all add: sum_list_insort_key)

lemma sorted_distinct_subseq:
  fixes xs ys :: "'a::linorder list"
  assumes "sorted xs" "distinct xs" "sorted ys" "distinct ys" "set xs \<subseteq> set ys"
  shows "subseq xs ys"
proof -
  let ?zs = "filter (\<lambda>y. y \<in> set xs) ys"
  have "sorted ?zs" using assms(3) by (rule sorted_wrt_filter)
  moreover have "distinct ?zs" using assms(4) by simp
  moreover have "set xs = set ?zs" using assms(5) by auto
  ultimately have "xs = ?zs" using assms(1,2) by (intro sorted_distinct_set_unique)
  then have "subseq xs (filter (\<lambda>y. y \<in> set xs) ys)" by simp
  also have "subseq (filter (\<lambda>y. y \<in> set xs) ys) ys" by (rule subseq_filter_left)
  finally show ?thesis .
qed

lemma age_group_in_buckets: "age_group age \<in> set age_buckets"
  by (simp add: age_group_def age_buckets_def)

lemma age_buckets_sorted: "sorted age_buckets \<and> distinct age_buckets"
  by (simp add: age_buckets_def)

lemma in_bucket_age_group:
  "18 \<le> age \<Longrightarrow> filter (\<lambda>b. in_bucket b age) age_buckets = [age_group age]"
  by (simp add: age_buckets_def in_bucket_def age_group_def)

lemma age_group_labels_unsorted:
  "map ag_age_group
     (map age_group_select (group_by (\<lambda>r. age_group (pc_customer_age r)) rows)) =
   remdups (map (\<lambda>r. age_group (pc_customer_age r)) rows)"
  using group_by_keys [of "\<lambda>r. age_group (pc_customer_age r)" rows]
  by (simp add: age_group_select_def comp_def)

lemma age_group_sizes_unsorted:
  "sum_list (map ag_num_policies
     (map age_group_select (group_by (\<lambda>r. age_group (pc_customer_age r)) rows))) =
   length rows"
  using group_by_sizes [of "\<lambda>r. age_group (pc_customer_age r)" rows]
  by (simp add: age_group_select_def comp_def)

lemma Policies_generate_bounds:
  assumes "numpy_contract R" and "p \<in> set (Policies (generate R n seed))"
  shows "18 \<le> customer_age p \<and> customer_age p \<le> 79 \<and> 400 \<le> premium p \<and> premium p \<le> 4000"
proof -
  from assms(2) have "(customer_age p, car_type p, premium p) \<in>
      set (fst (policy_rows R n (default_rng R seed)))"
    by (simp add: Policies_generate insert_policies_elem)
  from policy_rows_elem [OF this] obtain g x where
    age: "customer_age p = fst (integers R 18 80 g)" and
    prem: "premium p = round2 (clip 400 4000 x)"
    by auto
  from assms(1) have "18 \<le> fst (integers R 18 80 g) \<and> fst (integers R 18 80 g) < 80"
    unfolding numpy_contract_def by simp
  moreover have "400 \<le> round2 (clip 400 4000 x) \<and> round2 (clip 400 4000 x) \<le> 4000"
    by (rule round2_bounds) (simp_all add: clip_def)
  ultimately show ?thesis using age prem by simp
qed

lemma q_age_groups_labels:
  assumes "distinct (map policy_id (Policies db))"
  shows "\<exists>U. q_age_groups db = sort_key ag_age_group U \<and>
           map ag_age_group U = remdups (map (\<lambda>p. age_group (customer_age p)) (Policies db)) \<and>
           sum_list (map ag_num_policies U) = length (Policies db)"
proof -
  define rows where "rows = policy_claims db"
  define U where
    "U = map age_group_select (group_by (\<lambda>r. age_group (pc_customer_age r)) rows)"
  have q: "q_age_groups db = sort_key ag_age_group U"
    by (simp add: q_age_groups_def U_def rows_def)
  have ages: "map pc_customer_age rows = map customer_age (Policies db)"
    unfolding rows_def by (rule policy_claims_ages [OF assms])
  have keys: "map (\<lambda>r. age_group (pc_customer_age r)) rows =
      map (\<lambda>p. age_group (customer_age p)) (Policies db)"
  proof -
    have "map (\<lambda>r. age_group (pc_customer_age r)) rows = map age_group (map pc_customer_age rows)"
      by (simp add: comp_def)
    also have "\<dots> = map age_group (map customer_age (Policies db))" by (simp only: ages)
    finally show ?thesis by (simp add: comp_def)
  qed
  have labels: "map ag_age_group U = remdups (map (\<lambda>p. age_group (customer_age p)) (Policies db))"
    unfolding U_def by (simp only: age_group_labels_unsorted keys)
  have len: "length rows = length (Policies db)"
    using arg_cong [OF ages, of length] by simp
  have "sum_list (map ag_num_policies U) = length (Policies db)"
    unfolding U_def by (simp only: age_group_sizes_unsorted len)
  with q labels show ?thesis by blast
qed

lemma q_age_groups_total:
  assumes "distinct (map policy_id (Policies db))"
  shows "sum_list (map ag_num_policies (q_age_groups db)) = length (Policies db)"
proof -
  from q_age_groups_labels [OF assms] obtain U where
    "q_age_groups db = sort_key ag_age_group U"
    "sum_list (map ag_num_policies U) = length (Policies db)"
    by blast
  then show ?thesis by (simp only: sum_list_sort_key)
qed

lemma q_age_groups_canonical:
  assumes "distinct (map policy_id (Policies db))"
  shows "subseq (map ag_age_group (q_age_groups db)) age_buckets"
proof -
  from q_age_groups_labels [OF assms] obtain U where
    q: "q_age_groups db = sort_key ag_age_group U" and
    labels: "map ag_age_group U = remdups (map (\<lambda>p. age_group (customer_age p)) (Policies db))"
    by blast
  have dU: "distinct (map ag_age_group U)" by (simp only: labels distinct_remdups)
  have "sorted (map ag_age_group (sort_key ag_age_group U))" by (rule sorted_sort_key)
  moreover from dU have "distinct (map ag_age_group (sort_key ag_age_group U))"
    by (simp add: distinct_map)
  moreover have "set (map ag_age_group (sort_key ag_age_group U)) \<subseteq> set age_buckets"
  proof -
    have "set (map ag_age_group (sort_key ag_age_group U)) = set (map ag_age_group U)"
      by simp
    also have "\<dots> \<subseteq> set age_buckets"
      unfolding labels using age_group_in_buckets by auto
    finally show ?thesis .
  qed
  ultimately show ?thesis
    unfolding q using age_buckets_sorted by (intro sorted_distinct_subseq) simp_all
qed

lemma q_age_groups_one_row:
  assumes "distinct (map policy_id (Policies db))" and "p \<in> set (Policies db)"
  shows "length (filter (\<lambda>r. ag_age_group r = age_group (customer_age p)) (q_age_groups db)) = 1"
proof -
  from q_age_groups_labels [OF assms(1)] obtain U where
    q: "q_age_groups db = sort_key ag_age_group U" and
    labels: "map ag_age_group U = remdups (map (\<lambda>p. age_group (customer_age p)) (Policies db))"
    by blast
  have dU: "distinct (map ag_age_group U)" by (simp only: labels distinct_remdups)
  from assms(2) have "age_group (customer_age p) \<in> set (map ag_age_group U)"
    unfolding labels by auto
  with dU have "length (filter (\<lambda>r. ag_age_group r = age_group (customer_age p)) U) = 1"
    by (rule filter_distinct_key_length)
  then show ?thesis unfolding q by (simp only: sort_key_stable)
qed

lemma q_age_groups_under_age_db:
  "map ag_age_group (q_age_groups under_age_db) = [''30-39'', ''70+''] \<and>
   map ag_num_policies (q_age_groups under_age_db) = [1, 2]"
  by (simp add: under_age_db_def q_age_groups_def policy_claims_def left_join_def join_rows_def
      group_by_def age_group_select_def age_group_def Let_def)




lemma summary_metrics_unguarded:
  assumes "per_policy \<noteq> []" and "sum_list (map pp_premium per_policy) = 0"
  shows "\<exists>s. summary_metrics per_policy k = Inr s \<and>
           average_loss_ratio_overall s \<in> {NaN, PosInf, NegInf}"
  using assms by (simp add: summary_metrics_def float64_divide_def)

lemma exp_12_le: "exp (12::real) \<le> 531441"
proof -
  have "exp (12::real) = exp (of_nat 12 * 1)" by simp
  also have "\<dots> = exp 1 ^ 12" by (rule exp_of_nat_mult)
  also have "\<dots> \<le> (3::real) ^ 12" by (rule power_mono) (simp_all add: exp_le)
  also have "\<dots> = 531441" by simp
  finally show ?thesis .
qed

lemma severity_draw_bound:
  assumes "\<bar>z\<bar> \<le> 12.3"
  shows "0.005 < exp (mu + sigma * z)"
proof -
  from assms have "- 12.3 \<le> z" by simp
  then have "sigma * (- 12.3) \<le> sigma * z" by (intro mult_left_mono) (simp_all add: sigma_def)
  then have "ln 7000 - 12 \<le> mu + sigma * z" by (simp add: mu_def sigma_def power2_eq_square)
  then have "exp (ln 7000 - 12) \<le> exp (mu + sigma * z)" by simp
  moreover have "exp (ln 7000 - 12) = 7000 / exp (12::real)" by (simp add: exp_diff)
  ultimately have a: "7000 / exp (12::real) \<le> exp (mu + sigma * z)" by simp
  have "(0.005::real) < 7000 / 531441" by simp
  also have "\<dots> \<le> 7000 / exp (12::real)"
    by (rule divide_left_mono) (simp_all add: exp_12_le)
  also note a
  finally show ?thesis .
qed

lemma median_rng_simps:
  "default_rng median_rng seed = seed"
  "integers median_rng lo hi g = (lo + int g mod (hi - lo), Suc g)"
  "choice median_rng a p g = (a ! (g mod length a), Suc g)"
  "normal median_rng m s g = (m + s * (real (g mod 5) - 2), Suc g)"
  "poisson median_rng lam g = (g mod 3, Suc g)"
  "lognormal median_rng m s g = (exp (m + s * 0.45), Suc g)"
  by (simp_all add: counter_rng_def median_rng_def)

lemma median_rng_contract: "lognormal_contract median_rng"
  unfolding lognormal_contract_def
proof (intro allI)
  fix m s :: real and g :: nat
  have "\<bar>0.45::real\<bar> \<le> 12.3 \<and> fst (lognormal median_rng m s g) = exp (m + s * 0.45)"
    by (simp add: median_rng_simps)
  then show "\<exists>z. \<bar>z\<bar> \<le> 12.3 \<and> fst (lognormal median_rng m s g) = exp (m + s * z)" by blast
qed

lemma median_draw: "exp (mu + sigma * 9 / 20) = 7000"
proof -
  have "mu + sigma * 9 / 20 = ln 7000" by (simp add: mu_def sigma_def power2_eq_square)
  then show ?thesis by simp
qed

lemma policy_rows_median_rng:
  "policy_rows median_rng 3 42 =
     ([(60, ''SUV'', 1450), (61, ''Truck'', 1700), (62, ''Sports'', 700)], 51)"
  by (simp add: median_rng_simps policy_rows_def round2_def rint_def clip_def Let_def
      draw_array_numeral upt_conv_Cons)

lemma generate_median_rng:
  "generate median_rng 3 42 =
     \<lparr>Policies = [\<lparr>policy_id = 1, customer_age = 60, car_type = ''SUV'', premium = 1450\<rparr>,
                  \<lparr>policy_id = 2, customer_age = 61, car_type = ''Truck'', premium = 1700\<rparr>,
                  \<lparr>policy_id = 3, customer_age = 62, car_type = ''Sports'', premium = 700\<rparr>],
       Claims = [\<lparr>claim_id = 1, claim_policy_id = 2, claim_amount = 7000, claim_date = None\<rparr>]\<rparr>"
  by (simp add: generate_def policy_rows_median_rng insert_policies_def insert_claims_def
      claims_of_policy_def draw_amount_def median_draw round2_def rint_def Let_def median_rng_simps)










lemma policy_rows_counter_rng_10:
  "policy_rows counter_rng 3 10 =
     ([(28, ''SUV'', 950), (29, ''Truck'', 1200), (30, ''Sports'', 1450)], 19)"
  by (simp add: counter_rng_simps policy_rows_def round2_def rint_def clip_def Let_def
      draw_array_numeral upt_conv_Cons)

lemma generate_counter_rng_10:
  "generate counter_rng 3 10 =
     \<lparr>Policies = [\<lparr>policy_id = 1, customer_age = 28, car_type = ''SUV'', premium = 950\<rparr>,
                  \<lparr>policy_id = 2, customer_age = 29, car_type = ''Truck'', premium = 1200\<rparr>,
                  \<lparr>policy_id = 3, customer_age = 30, car_type = ''Sports'', premium = 1450\<rparr>],
       Claims = [\<lparr>claim_id = 1, claim_policy_id = 1, claim_amount = 7000.04, claim_date = None\<rparr>,
                 \<lparr>claim_id = 2, claim_policy_id = 3, claim_amount = 3000.02, claim_date = None\<rparr>]\<rparr>"
  by (simp add: generate_def policy_rows_counter_rng_10 insert_policies_def insert_claims_def
      claims_of_policy_def draw_amount_def round2_def rint_def Let_def counter_rng_simps)

lemma policy_claims_labels:
  assumes "distinct (map policy_id (Policies db))"
  shows "map (\<lambda>r. age_group (pc_customer_age r)) (policy_claims db) =
         map (\<lambda>p. age_group (customer_age p)) (Policies db)"
proof -
  have "map (\<lambda>r. age_group (pc_customer_age r)) (policy_claims db) =
      map age_group (map pc_customer_age (policy_claims db))"
    by (simp add: comp_def)
  also have "\<dots> = map age_group (map customer_age (Policies db))"
    by (simp only: policy_claims_ages [OF assms])
  finally show ?thesis by (simp add: comp_def)
qed

lemma length_filter_key: "length (filter (\<lambda>x. f x = k) xs) = length (filter (\<lambda>y. y = k) (map f xs))"
  by (induction xs) simp_all

lemma q_age_groups_row_counts:
  assumes "distinct (map policy_id (Policies db))" and "r \<in> set (q_age_groups db)"
  shows "0 < ag_num_policies r \<and>
         ag_num_policies r =
           length (filter (\<lambda>p. age_group (customer_age p) = ag_age_group r) (Policies db))"
proof -
  define K where "K = (\<lambda>x::policy_claims_row. age_group (pc_customer_age x))"
  from assms(2) obtain k where k: "k \<in> set (map K (policy_claims db))"
    and r: "r = age_group_select (filter (\<lambda>x. K x = k) (policy_claims db))"
    by (auto simp: q_age_groups_def group_by_def K_def)
  let ?grp = "filter (\<lambda>x. K x = k) (policy_claims db)"
  from k have ne: "?grp \<noteq> []" by (auto simp: filter_empty_conv)
  then have "hd ?grp \<in> set ?grp" by (rule hd_in_set)
  then have label: "ag_age_group r = k" by (simp add: r age_group_select_def K_def)
  have "ag_num_policies r = length ?grp" by (simp add: r age_group_select_def)
  also have "\<dots> = length (filter (\<lambda>y. y = k) (map K (policy_claims db)))"
    by (rule length_filter_key)
  also have "\<dots> = length (filter (\<lambda>y. y = k) (map (\<lambda>p. age_group (customer_age p)) (Policies db)))"
    unfolding K_def by (simp only: policy_claims_labels [OF assms(1)])
  also have "\<dots> = length (filter (\<lambda>p. age_group (customer_age p) = k) (Policies db))"
    by (rule length_filter_key [symmetric])
  finally have cnt: "ag_num_policies r =
      length (filter (\<lambda>p. age_group (customer_age p) = k) (Policies db))" .
  from ne have "0 < ag_num_policies r" by (simp add: r age_group_select_def)
  with cnt label show ?thesis by simp
qed

lemma in_bucket_iff: "18 \<le> age \<Longrightarrow> in_bucket b age \<longleftrightarrow> age_group age = b"
  by (auto simp: in_bucket_def age_group_def)


lemma create_schema_existing:
  "create_schema (sqlite3_connect \<lparr>db_file = Some (Tables db)\<rparr>) = Inl OperationalError"
  by (simp add: sqlite3_connect_def create_schema_def)

text \<open>
  In exact arithmetic the per-policy totals add up to the sum of all claim amounts. The
  script adds float64 numbers, per policy in SQLite and then over the policies in pandas,
  and float64 addition is not associative: this is not an equality between the two sums
  the script computes.
\<close>

lemma per_policy_totals_exact_sum:
  "sum_list (map pp_total_claims_amount (q_per_policy (generate R n seed))) =
     sum_list (map claim_amount (Claims (generate R n seed)))"
proof -
  define db where "db = generate R n seed"
  have d: "distinct (map policy_id (Policies db))"
    by (simp add: db_def distinct_Policies_generate)
  have ref: "\<forall>c\<in>set (Claims db). claim_policy_id c \<in> set (map policy_id (Policies db))"
    by (simp add: db_def referential_integrity)
  show ?thesis
    using sum_matching_claims [OF d ref] unfolding db_def [symmetric]
    by (simp add: q_per_policy_rows [OF d] comp_def)
qed

lemma summary_of_zero_premium_db:
  "summary_of zero_premium_db =
     Inr \<lparr>total_policies = 1, total_claims_records = 1, total_claims_amount = 100,
          average_loss_ratio_overall = PosInf\<rparr>"
  by (simp add: summary_of_def summary_metrics_def q_per_policy_def zero_premium_db_def
      left_join_def join_rows_def group_by_def per_policy_select_def float64_divide_def
      sql_sum_def sql_count_def coalesce_def c_claim_amount_def c_claim_id_def Let_def)

section \<open>The claims\<close>

text \<open>
  The theorems about generated databases hold for every generator \<open>R\<close>, every number of
  policies \<open>n\<close> and every seed, so for \<open>run R\<close>, which is \<open>generate R N_POLICIES 42\<close>, as well.
\<close>

text \<open>
  C5. The rate of a policy's Poisson draw is the base 0.12 times the car type's factor
  times the age's factor, and this product is the rate the loop passes to the draw of the
  policy's claim count.
\<close>

theorem poisson_rate_multiplicative:
  "base_lambda car age = 0.12 * car_type_factor car * age_factor age \<and>
   claims_of_policy R (pid, age, car) g =
     (let (n_claims, g1) = poisson R (0.12 * car_type_factor car * age_factor age) g;
          (amts, g2) = draw_array (draw_amount R) n_claims g1
      in (map (\<lambda>amt. (pid, amt, None)) amts, g2))"
proof -
  have rate: "base_lambda car age = 0.12 * car_type_factor car * age_factor age"
    by (simp add: base_lambda_def car_type_factor_def age_factor_def Let_def)
  show ?thesis
    by (simp only: rate [symmetric] claims_of_policy_def prod.case simp_thms)
qed

text \<open>
  C10. An age outside every named band, below 18 or above 69, falls through to the
  \<^verbatim>\<open>ELSE\<close> branch and is labelled 70+; every age gets one of the six labels. A policy
  of such an age in a table with distinct policy ids is counted in the one row labelled
  70+, and the counts of the rows still sum to the number of policies.
\<close>

theorem age_group_else_branch:
  "(age < 18 \<or> 69 < age \<longrightarrow> age_group age = ''70+'') \<and> age_group age \<in> set age_buckets \<and>
   (distinct (map policy_id (Policies db)) \<and> p \<in> set (Policies db) \<and>
    (customer_age p < 18 \<or> 69 < customer_age p) \<longrightarrow>
      length (filter (\<lambda>r. ag_age_group r = ''70+'') (q_age_groups db)) = 1 \<and>
      sum_list (map ag_num_policies (q_age_groups db)) = length (Policies db))"
proof -
  have else_branch: "age_group a = ''70+''" if "a < 18 \<or> 69 < a" for a
    using that by (auto simp: age_group_def)
  have "length (filter (\<lambda>r. ag_age_group r = ''70+'') (q_age_groups db)) = 1 \<and>
      sum_list (map ag_num_policies (q_age_groups db)) = length (Policies db)"
    if d: "distinct (map policy_id (Policies db))" and p: "p \<in> set (Policies db)"
      and a: "customer_age p < 18 \<or> 69 < customer_age p"
    using q_age_groups_one_row [OF d p] q_age_groups_total [OF d] else_branch [OF a] by simp
  with else_branch [of age] age_group_in_buckets [of age] show ?thesis by blast
qed

theorem age_group_else_branch_witness:
  "((5::int) < 18 \<or> 69 < (5::int)) \<and> age_group 5 = ''70+'' \<and>
   distinct (map policy_id (Policies under_age_db)) \<and>
   \<lparr>policy_id = 1, customer_age = 5, car_type = ''Sedan'', premium = 1000\<rparr>
     \<in> set (Policies under_age_db) \<and>
   length (filter (\<lambda>r. ag_age_group r = ''70+'') (q_age_groups under_age_db)) = 1 \<and>
   sum_list (map ag_num_policies (q_age_groups under_age_db)) = 3"
proof -
  let ?p = "\<lparr>policy_id = 1, customer_age = 5, car_type = ''Sedan'', premium = 1000\<rparr>"
  have d: "distinct (map policy_id (Policies under_age_db))"
    and m: "?p \<in> set (Policies under_age_db)"
    and len: "length (Policies under_age_db) = 3"
    by (simp_all add: under_age_db_def)
  have a: "customer_age ?p < 18 \<or> 69 < customer_age ?p" by simp
  from age_group_else_branch [of 5 under_age_db ?p] d m a len
  show ?thesis by simp
qed

text \<open>
  C4. With a generator whose draws are in the ranges numpy documents, every generated
  policy has an age from 18 to 79 and a premium from 400 to 4000.
\<close>

theorem generated_policy_bounds:
  assumes "numpy_contract R" and "p \<in> set (Policies (generate R n seed))"
  shows "18 \<le> customer_age p \<and> customer_age p \<le> 79 \<and> 400 \<le> premium p \<and> premium p \<le> 4000"
  using assms by (rule Policies_generate_bounds)

theorem generated_policy_bounds_witness:
  "numpy_contract counter_rng \<and>
   \<lparr>policy_id = 3, customer_age = 62, car_type = ''Sports'', premium = 700\<rparr>
     \<in> set (Policies (generate counter_rng 3 42)) \<and>
   18 \<le> (62::int) \<and> (62::int) \<le> 79 \<and> 400 \<le> (700::real) \<and> (700::real) \<le> 4000"
proof -
  have m: "\<lparr>policy_id = 3, customer_age = 62, car_type = ''Sports'', premium = 700\<rparr>
     \<in> set (Policies (generate counter_rng 3 42))"
    by (simp add: generate_counter_rng)
  from generated_policy_bounds [OF counter_rng_contract m] counter_rng_contract m
  show ?thesis by simp
qed

text \<open>
  C3. The per-policy table of a generated database has as many rows as there are
  policies, exactly one row for each policy, and the row of a policy without claims has
  the claim count 0 and the claim amount 0.
\<close>

theorem per_policy_complete:
  "length (q_per_policy (generate R n seed)) = length (Policies (generate R n seed)) \<and>
   (\<forall>p\<in>set (Policies (generate R n seed)).
      length (filter (\<lambda>r. pp_policy_id r = policy_id p) (q_per_policy (generate R n seed))) = 1 \<and>
      ((\<forall>c\<in>set (Claims (generate R n seed)). claim_policy_id c \<noteq> policy_id p) \<longrightarrow>
       (\<forall>r\<in>set (q_per_policy (generate R n seed)).
          pp_policy_id r = policy_id p \<longrightarrow> pp_claims_count r = 0 \<and> pp_total_claims_amount r = 0)))"
proof -
  define db where "db = generate R n seed"
  have d: "distinct (map policy_id (Policies db))"
    by (simp add: db_def distinct_Policies_generate)
  have len: "length (q_per_policy db) = length (Policies db)"
    by (simp add: q_per_policy_rows [OF d])
  have one: "length (filter (\<lambda>r. pp_policy_id r = policy_id p) (q_per_policy db)) = 1"
    if "p \<in> set (Policies db)" for p
  proof (rule filter_distinct_key_length)
    show "distinct (map pp_policy_id (q_per_policy db))" by (simp add: q_per_policy_ids [OF d] d)
    show "policy_id p \<in> set (map pp_policy_id (q_per_policy db))"
      using that by (simp add: q_per_policy_ids [OF d])
  qed
  have zero: "pp_claims_count r = 0 \<and> pp_total_claims_amount r = 0"
    if none: "\<forall>c\<in>set (Claims db). claim_policy_id c \<noteq> policy_id p"
      and r: "r \<in> set (q_per_policy db)" and id: "pp_policy_id r = policy_id p" for p r
  proof -
    from none id have "filter (\<lambda>c. pp_policy_id r = claim_policy_id c) (Claims db) = []"
      by (auto simp: filter_empty_conv)
    with q_per_policy_total [OF d r] show ?thesis by simp
  qed
  from len one zero show ?thesis unfolding db_def by blast
qed

theorem per_policy_complete_witness:
  "\<lparr>policy_id = 1, customer_age = 60, car_type = ''SUV'', premium = 1450\<rparr>
     \<in> set (Policies (generate counter_rng 3 42)) \<and>
   \<not> (\<exists>c\<in>set (Claims (generate counter_rng 3 42)). claim_policy_id c = 1) \<and>
   \<lparr>pp_policy_id = 1, pp_customer_age = 60, pp_car_type = ''SUV'', pp_premium = 1450,
     pp_total_claims_amount = 5000.02, pp_claims_count = 1\<rparr>
     \<notin> set (q_per_policy (generate counter_rng 3 42)) \<and>
   length (q_per_policy (generate counter_rng 3 42)) = 3"
proof -
  let ?db = "generate counter_rng 3 42"
  let ?p = "\<lparr>policy_id = 1, customer_age = 60, car_type = ''SUV'', premium = 1450\<rparr>"
  let ?r = "\<lparr>pp_policy_id = 1, pp_customer_age = 60, pp_car_type = ''SUV'', pp_premium = 1450,
     pp_total_claims_amount = 5000.02, pp_claims_count = 1\<rparr>"
  have m: "?p \<in> set (Policies ?db)" by (simp add: generate_counter_rng)
  have none: "\<forall>c\<in>set (Claims ?db). claim_policy_id c \<noteq> policy_id ?p"
    by (simp add: generate_counter_rng)
  have len: "length (Policies ?db) = 3" by (simp add: generate_counter_rng)
  from per_policy_complete [of counter_rng 3 42] m none
  have "\<forall>r\<in>set (q_per_policy ?db). pp_policy_id r = policy_id ?p \<longrightarrow>
          pp_claims_count r = 0 \<and> pp_total_claims_amount r = 0"
    and "length (q_per_policy ?db) = length (Policies ?db)"
    by blast+
  then have "?r \<notin> set (q_per_policy ?db)" and "length (q_per_policy ?db) = 3"
    using len by auto
  with m none show ?thesis by simp
qed

text \<open>
  C2, as amended. The top-policies query on a generated database returns
  \<open>min 10 (number of policies)\<close> rows of the per-policy table, each with its policy's
  summed claim amount, in an order in which the amounts never increase.
\<close>

theorem top_policies_sorted:
  "length (q_top_policies (generate R n seed)) = min 10 (length (Policies (generate R n seed))) \<and>
   sorted_wrt (\<ge>) (map pp_total_claims_amount (q_top_policies (generate R n seed))) \<and>
   set (q_top_policies (generate R n seed)) \<subseteq> set (q_per_policy (generate R n seed)) \<and>
   map pp_total_claims_amount (q_top_policies (generate R n seed)) =
     map (\<lambda>r. sum_list (map claim_amount
            (filter (\<lambda>c. pp_policy_id r = claim_policy_id c) (Claims (generate R n seed)))))
       (q_top_policies (generate R n seed))"
proof -
  define db where "db = generate R n seed"
  define key where "key = (\<lambda>r::per_policy_row. - pp_total_claims_amount r)"
  have d: "distinct (map policy_id (Policies db))"
    by (simp add: db_def distinct_Policies_generate)
  have top: "q_top_policies db = take 10 (sort_key key (q_per_policy db))"
    by (simp add: q_top_policies_conv key_def)
  have len: "length (q_top_policies db) = min 10 (length (Policies db))"
    by (simp add: top q_per_policy_rows [OF d] min.commute)
  have "sorted (map key (sort_key key (q_per_policy db)))" by (rule sorted_sort_key)
  then have "sorted_wrt (\<lambda>a b. pp_total_claims_amount b \<le> pp_total_claims_amount a)
      (sort_key key (q_per_policy db))"
    by (simp add: sorted_wrt_map key_def)
  then have "sorted_wrt (\<lambda>a b. pp_total_claims_amount b \<le> pp_total_claims_amount a)
      (q_top_policies db)"
    unfolding top by (rule sorted_wrt_take)
  then have srt: "sorted_wrt (\<ge>) (map pp_total_claims_amount (q_top_policies db))"
    by (simp add: sorted_wrt_map)
  have sub: "set (q_top_policies db) \<subseteq> set (q_per_policy db)"
    unfolding top using set_take_subset [of 10 "sort_key key (q_per_policy db)"] by simp
  have tot: "map pp_total_claims_amount (q_top_policies db) =
     map (\<lambda>r. sum_list (map claim_amount
            (filter (\<lambda>c. pp_policy_id r = claim_policy_id c) (Claims db)))) (q_top_policies db)"
  proof (rule map_cong [OF refl])
    fix r assume "r \<in> set (q_top_policies db)"
    with sub have "r \<in> set (q_per_policy db)" by auto
    from q_per_policy_total [OF d this]
    show "pp_total_claims_amount r =
      sum_list (map claim_amount (filter (\<lambda>c. pp_policy_id r = claim_policy_id c) (Claims db)))"
      by simp
  qed
  from len srt sub tot show ?thesis unfolding db_def by blast
qed

text \<open>
  C2 as stated fails: two policies without claims both have the amount 0, so the order
  is not strictly descending.
\<close>

theorem top_policies_strict_counterexample:
  "\<not> sorted_wrt (>) (map pp_total_claims_amount (q_top_policies (generate counter_rng 3 42)))"
  by (simp add: q_top_policies_counter_rng)



text \<open>
  C6. With numpy's log-normal sampler, every generated claim has a positive amount after
  the rounding to cents, and its policy id is that of a generated policy.
\<close>

theorem generated_claims_positive:
  assumes "lognormal_contract R" and "c \<in> set (Claims (generate R n seed))"
  shows "0 < claim_amount c \<and>
         (\<exists>p\<in>set (Policies (generate R n seed)). policy_id p = claim_policy_id c)"
proof -
  from Claims_generate_elem [OF assms(2)] obtain g where
    ref: "claim_policy_id c \<in> policy_id ` set (Policies (generate R n seed))" and
    amt: "claim_amount c = round2 (fst (lognormal R mu sigma g))"
    by auto
  from assms(1) obtain z where z: "\<bar>z\<bar> \<le> 12.3"
    and draw: "fst (lognormal R mu sigma g) = exp (mu + sigma * z)"
    unfolding lognormal_contract_def by blast
  from severity_draw_bound [OF z] have "0.005 < fst (lognormal R mu sigma g)"
    by (simp only: draw)
  then have "0 < claim_amount c" unfolding amt by (rule round2_pos)
  moreover from ref have "\<exists>p\<in>set (Policies (generate R n seed)). policy_id p = claim_policy_id c"
    by auto
  ultimately show ?thesis by blast
qed

theorem generated_claims_positive_witness:
  "lognormal_contract median_rng \<and>
   \<lparr>claim_id = 1, claim_policy_id = 2, claim_amount = 7000, claim_date = None\<rparr>
     \<in> set (Claims (generate median_rng 3 42)) \<and>
   (0::real) < 7000 \<and>
   (\<exists>p\<in>set (Policies (generate median_rng 3 42)). policy_id p = 2)"
proof -
  have m: "\<lparr>claim_id = 1, claim_policy_id = 2, claim_amount = 7000, claim_date = None\<rparr>
     \<in> set (Claims (generate median_rng 3 42))"
    by (simp add: generate_median_rng)
  from generated_claims_positive [OF median_rng_contract m] median_rng_contract m
  show ?thesis by simp
qed

text \<open>
  C8. The policy counts of the age-group rows of a generated database sum to the number
  of policies; the labels of the rows, in the order of the result, are a subsequence of
  the canonical sequence of the six buckets; and the count of every row is positive and
  is the number of policies the query labels with the row's label. With a generator
  within numpy's ranges, the count of a row is the number of policies whose age lies in
  the row's band, the age of every policy lies in exactly one of the six bands, the one
  whose label the query gives it, and exactly one row of the result has that label.
\<close>

theorem age_group_stats_buckets:
  "sum_list (map ag_num_policies (q_age_groups (generate R n seed))) =
     length (Policies (generate R n seed)) \<and>
   subseq (map ag_age_group (q_age_groups (generate R n seed))) age_buckets \<and>
   (\<forall>r\<in>set (q_age_groups (generate R n seed)).
      0 < ag_num_policies r \<and>
      ag_num_policies r =
        length (filter (\<lambda>p. age_group (customer_age p) = ag_age_group r)
                  (Policies (generate R n seed)))) \<and>
   (numpy_contract R \<longrightarrow>
     (\<forall>r\<in>set (q_age_groups (generate R n seed)).
        ag_num_policies r =
          length (filter (\<lambda>p. in_bucket (ag_age_group r) (customer_age p))
                    (Policies (generate R n seed)))) \<and>
     (\<forall>p\<in>set (Policies (generate R n seed)).
        filter (\<lambda>b. in_bucket b (customer_age p)) age_buckets = [age_group (customer_age p)] \<and>
        length (filter (\<lambda>r. ag_age_group r = age_group (customer_age p))
                  (q_age_groups (generate R n seed))) = 1))"
proof -
  define db where "db = generate R n seed"
  have d: "distinct (map policy_id (Policies db))"
    by (simp add: db_def distinct_Policies_generate)
  have adult: "18 \<le> customer_age p" if "numpy_contract R" and "p \<in> set (Policies db)" for p
    using Policies_generate_bounds [OF that(1)] that(2) unfolding db_def by blast
  have per: "filter (\<lambda>b. in_bucket b (customer_age p)) age_buckets = [age_group (customer_age p)] \<and>
        length (filter (\<lambda>r. ag_age_group r = age_group (customer_age p)) (q_age_groups db)) = 1"
    if c: "numpy_contract R" and p: "p \<in> set (Policies db)" for p
    using in_bucket_age_group [OF adult [OF c p]] q_age_groups_one_row [OF d p] by simp
  have band: "ag_num_policies r =
      length (filter (\<lambda>p. in_bucket (ag_age_group r) (customer_age p)) (Policies db))"
    if c: "numpy_contract R" and r: "r \<in> set (q_age_groups db)" for r
  proof -
    have "filter (\<lambda>p. in_bucket (ag_age_group r) (customer_age p)) (Policies db) =
        filter (\<lambda>p. age_group (customer_age p) = ag_age_group r) (Policies db)"
      by (rule filter_cong [OF refl]) (simp add: in_bucket_iff adult [OF c])
    with q_age_groups_row_counts [OF d r] show ?thesis by simp
  qed
  from q_age_groups_total [OF d] q_age_groups_canonical [OF d] q_age_groups_row_counts [OF d]
    per band
  show ?thesis unfolding db_def by blast
qed

theorem age_group_stats_buckets_witness:
  "numpy_contract counter_rng \<and>
   \<lparr>policy_id = 1, customer_age = 28, car_type = ''SUV'', premium = 950\<rparr>
     \<in> set (Policies (generate counter_rng 3 10)) \<and>
   \<lparr>policy_id = 3, customer_age = 30, car_type = ''Sports'', premium = 1450\<rparr>
     \<in> set (Policies (generate counter_rng 3 10)) \<and>
   filter (\<lambda>b. in_bucket b 28) age_buckets = [''18-29''] \<and>
   filter (\<lambda>b. in_bucket b 30) age_buckets = [''30-39''] \<and>
   map ag_num_policies
     (filter (\<lambda>r. ag_age_group r = ''18-29'') (q_age_groups (generate counter_rng 3 10))) = [2] \<and>
   map ag_num_policies
     (filter (\<lambda>r. ag_age_group r = ''30-39'') (q_age_groups (generate counter_rng 3 10))) = [1]"
proof -
  let ?db = "generate counter_rng 3 10"
  let ?p1 = "\<lparr>policy_id = 1, customer_age = 28, car_type = ''SUV'', premium = 950\<rparr>"
  let ?p3 = "\<lparr>policy_id = 3, customer_age = 30, car_type = ''Sports'', premium = 1450\<rparr>"
  note inst = age_group_stats_buckets [of counter_rng 3 10]
  have m1: "?p1 \<in> set (Policies ?db)" and m3: "?p3 \<in> set (Policies ?db)"
    by (simp_all add: generate_counter_rng_10)
  have a1: "age_group (customer_age ?p1) = ''18-29''" and a3: "age_group (customer_age ?p3) = ''30-39''"
    by (simp_all add: age_group_def)
  have count: "map ag_num_policies (filter (\<lambda>r. ag_age_group r = age_group (customer_age p))
                 (q_age_groups ?db)) =
       [length (filter (\<lambda>q. age_group (customer_age q) = age_group (customer_age p)) (Policies ?db))]"
    if p: "p \<in> set (Policies ?db)" for p
  proof -
    from inst counter_rng_contract p
    have "length (filter (\<lambda>r. ag_age_group r = age_group (customer_age p)) (q_age_groups ?db)) = 1"
      by blast
    then obtain r where f: "filter (\<lambda>r. ag_age_group r = age_group (customer_age p)) (q_age_groups ?db) = [r]"
      by (auto simp: length_Suc_conv)
    then have "r \<in> set (filter (\<lambda>r. ag_age_group r = age_group (customer_age p)) (q_age_groups ?db))"
      by simp
    then have r: "r \<in> set (q_age_groups ?db)" and l: "ag_age_group r = age_group (customer_age p)"
      by simp_all
    from inst r have "ag_num_policies r =
        length (filter (\<lambda>q. age_group (customer_age q) = ag_age_group r) (Policies ?db))"
      by blast
    with f l show ?thesis by simp
  qed
  have b1: "filter (\<lambda>b. in_bucket b (customer_age ?p1)) age_buckets = [age_group (customer_age ?p1)]"
    and b3: "filter (\<lambda>b. in_bucket b (customer_age ?p3)) age_buckets = [age_group (customer_age ?p3)]"
    using inst counter_rng_contract m1 m3 by blast+
  have n1: "length (filter (\<lambda>q. age_group (customer_age q) = ''18-29'') (Policies ?db)) = 2"
    and n3: "length (filter (\<lambda>q. age_group (customer_age q) = ''30-39'') (Policies ?db)) = 1"
    by (simp_all add: generate_counter_rng_10 age_group_def)
  from count [OF m1] count [OF m3] b1 b3 n1 n3 a1 a3 m1 m3 counter_rng_contract
  show ?thesis by simp
qed



end
